theory Spec2Isabelle
  imports Main
begin

section \<open>Strings, lines and errors\<close>

text \<open>
  A JavaScript string is modelled as a \<^typ>\<open>string\<close>: one \<^typ>\<open>char\<close> per code unit, for
  the code units below 256. Rows, columns, offsets and counters are JavaScript numbers that
  only ever hold non-negative integers here; they are modelled as \<^typ>\<open>nat\<close>.
\<close>

datatype error =
    InvariantViolation string
  | TypeError
  | IOError

definition EOL :: char where
  "EOL = CHR 0x0A"

text \<open>\<^verbatim>\<open>s.split(sep)\<close> for a one-character separator: never empty, \<^verbatim>\<open>''.split(sep)\<close> is \<^verbatim>\<open>['']\<close>.\<close>

fun split :: "char \<Rightarrow> string \<Rightarrow> string list" where
  "split sep [] = [[]]"
| "split sep (c # cs) =
     (if c = sep then [] # split sep cs
      else (case split sep cs of [] \<Rightarrow> [[c]] | l # ls \<Rightarrow> (c # l) # ls))"

text \<open>\<^verbatim>\<open>xs.join(sep)\<close>: the empty array joins to the empty string.\<close>

fun join :: "char \<Rightarrow> string list \<Rightarrow> string" where
  "join sep [] = []"
| "join sep [l] = l"
| "join sep (l # ls) = l @ sep # join sep ls"

text \<open>
  The characters matched by the regular expression class \<^verbatim>\<open>\s\<close>, among the code units
  below 256: tab, line feed, vertical tab, form feed, carriage return, space and the
  no-break space.
\<close>

definition isWhitespace :: "char \<Rightarrow> bool" where
  "isWhitespace c \<longleftrightarrow>
     c = CHR 0x09 \<or> c = CHR 0x0A \<or> c = CHR 0x0B \<or> c = CHR 0x0C \<or> c = CHR 0x0D
       \<or> c = CHR 0x20 \<or> c = CHR 0xA0"

section \<open>DefinitionPreviewService.js\<close>

definition MAX_PREVIEW_LINES :: nat where
  "MAX_PREVIEW_LINES = 10"

text \<open>\<^verbatim>\<open>WHITESPACE_REGEX.exec(line)[0].length\<close> with \<^verbatim>\<open>WHITESPACE_REGEX = /^\s*/\<close>.\<close>

definition getIndentLevel :: "string \<Rightarrow> nat" where
  "getIndentLevel line = length (takeWhile isWhitespace line)"

text \<open>
  Modelled from the spec: \<^verbatim>\<open>countOccurrences\<close> is imported from
  \<^verbatim>\<open>nuclide-commons/string\<close>, which is not among the source files. The spec has it keep
  "a running count of \<^verbatim>\<open>(\<close> characters and \<^verbatim>\<open>)\<close> characters": the number of positions of
  the line that hold the given character.
\<close>

definition countOccurrences :: "string \<Rightarrow> char \<Rightarrow> nat" where
  "countOccurrences haystack c = length (filter (\<lambda>x. x = c) haystack)"

fun minimum :: "nat list \<Rightarrow> nat" where
  "minimum [] = 0"
| "minimum [n] = n"
| "minimum (n # ns) = min n (minimum ns)"

text \<open>
  Modelled from the spec: \<^verbatim>\<open>dedent\<close> is imported from the package of that name, which is
  not among the source files. The spec has it "remove the minimal common leading
  indentation shared by all non-empty lines": the text is cut into lines, the least
  indentation of the lines that are not the empty string is dropped from the front of
  every line, and the lines are joined again.
\<close>

definition dedent :: "string \<Rightarrow> string" where
  "dedent s =
     (let ls = split EOL s;
          mindent = minimum (map getIndentLevel (filter (\<lambda>l. l \<noteq> []) ls))
      in join EOL (map (drop mindent) ls))"

record Point =
  row :: nat
  column :: nat

record Range =
  range_start :: Point
  range_end :: Point

text \<open>
  The \<^verbatim>\<open>Definition\<close> objects, with the fields that \<^verbatim>\<open>getDefinitionForFragmentDefinition\<close>
  sets; the field \<^verbatim>\<open>range\<close> is \<open>drange\<close> here. \<^verbatim>\<open>getDefinitionPreview\<close> reads \<open>path\<close> and
  the row of \<open>position\<close> only.
\<close>

record Definition =
  path :: string
  position :: Point
  drange :: Range
  name :: string
  language :: string
  projectRoot :: string

text \<open>
  The \<^verbatim>\<open>for\<close> loop of \<^verbatim>\<open>getDefinitionPreview\<close>. The loop variables are \<open>i\<close>,
  \<open>openParenCount\<close> and \<open>closedParenCount\<close>; \<open>buffer\<close> is the array the loop pushes to.
  The \<^verbatim>\<open>break\<close> returns the buffer; so does the loop condition once it is false.
\<close>

function scanLines ::
  "string list \<Rightarrow> nat \<Rightarrow> nat \<Rightarrow> nat \<Rightarrow> nat \<Rightarrow> nat \<Rightarrow> string list \<Rightarrow> string list" where
  "scanLines lines start initialIndentLevel i openParenCount closedParenCount buffer =
     (if i < start + MAX_PREVIEW_LINES \<and> i < length lines then
        (let line = lines ! i;
             indentLevel = getIndentLevel line;
             openParenCount' = openParenCount + countOccurrences line CHR ''('';
             closedParenCount' = closedParenCount + countOccurrences line CHR '')'';
             buffer' = buffer @ [line]
         in if indentLevel \<le> initialIndentLevel \<and> openParenCount' = closedParenCount'
            then buffer'
            else scanLines lines start initialIndentLevel (i + 1)
                   openParenCount' closedParenCount' buffer')
      else buffer)"
  by pat_completeness auto
termination
  by (relation "measure (\<lambda>(lines, start, initialIndentLevel, i, rest). length lines - i)") auto

declare scanLines.simps [simp del]

text \<open>
  The lines the loop collects, from the contents of the file and the row of the
  definition. \<^verbatim>\<open>lines[start]\<close> is \<^verbatim>\<open>undefined\<close> when \<open>start\<close> is not an index of
  \<open>lines\<close>, and \<^verbatim>\<open>RegExp.prototype.exec\<close> then matches against the string
  \<^verbatim>\<open>'undefined'\<close>.
\<close>

definition previewBuffer :: "string \<Rightarrow> nat \<Rightarrow> string list" where
  "previewBuffer contents start =
     (let lines = split EOL contents;
          initialIndentLevel =
            getIndentLevel (if start < length lines then lines ! start else ''undefined'')
      in scanLines lines start initialIndentLevel start 0 0 [])"

text \<open>
  \<^verbatim>\<open>fs.readFile\<close>: the file system is a map from paths to file contents; reading a path
  that it does not hold rejects the promise.
\<close>

definition readFile :: "(string \<rightharpoonup> string) \<Rightarrow> string \<Rightarrow> error + string" where
  "readFile fs p = (case fs p of None \<Rightarrow> Inl IOError | Some contents \<Rightarrow> Inr contents)"

definition getDefinitionPreview :: "(string \<rightharpoonup> string) \<Rightarrow> Definition \<Rightarrow> error + string" where
  "getDefinitionPreview fs definition =
     (case readFile fs (path definition) of
        Inl e \<Rightarrow> Inl e
      | Inr contents \<Rightarrow>
          Inr (dedent (join EOL (previewBuffer contents (row (position definition))))))"

section \<open>getDefinition.js\<close>

text \<open>
  The syntax nodes of the GraphQL parser, with the fields the code reads. A name node may
  come without a location, and an operation definition without a name; the code checks
  both. A fragment definition always has a name node. The location of a fragment spread
  and of a definition is passed unchecked to \<^verbatim>\<open>locToRange\<close>, which takes a location.
  The fields \<^verbatim>\<open>name\<close>, \<^verbatim>\<open>loc\<close>, \<^verbatim>\<open>start\<close> and \<^verbatim>\<open>end\<close> carry the kind of their node
  in front, and the field \<^verbatim>\<open>definition\<close> of a known fragment is \<open>definitionNode\<close>.
\<close>

record Location =
  loc_start :: nat
  loc_end :: nat

record NameNode =
  name_value :: string
  name_loc :: "Location option"

record FragmentSpreadNode =
  spread_name :: NameNode
  spread_loc :: Location

record FragmentDefinitionNode =
  fragment_name :: NameNode
  fragment_loc :: Location

record OperationDefinitionNode =
  operation_name :: "NameNode option"
  operation_loc :: Location

datatype DefinitionNode =
    FragmentDefinition FragmentDefinitionNode
  | OperationDefinition OperationDefinitionNode

text \<open>\<^verbatim>\<open>definition.name\<close> and \<^verbatim>\<open>definition.loc\<close> on either kind of definition.\<close>

fun definitionName :: "DefinitionNode \<Rightarrow> NameNode option" where
  "definitionName (FragmentDefinition f) = Some (fragment_name f)"
| "definitionName (OperationDefinition p) = operation_name p"

fun definitionLoc :: "DefinitionNode \<Rightarrow> Location" where
  "definitionLoc (FragmentDefinition f) = fragment_loc f"
| "definitionLoc (OperationDefinition p) = operation_loc p"

record FragmentInfo =
  filePath :: "string option"
  content :: string
  definitionNode :: FragmentDefinitionNode

record DefinitionQueryResult =
  queryRange :: "Range list"
  definitions :: "Definition list"

definition LANGUAGE :: string where
  "LANGUAGE = ''GraphQL''"

text \<open>The index just after the last newline of \<open>buf\<close>, and 0 when it has none.\<close>

definition lineStart :: "string \<Rightarrow> nat" where
  "lineStart buf = length buf - length (takeWhile (\<lambda>c. c \<noteq> EOL) (rev buf))"

text \<open>
  Modelled from the spec: \<^verbatim>\<open>offsetToPoint\<close> is imported from \<^verbatim>\<open>../utils/Range\<close>, which
  is not among the source files. The spec has it "count newline characters before the
  offset for the row, and the distance from the preceding newline (or text start) to the
  offset for the column"; its scenario puts the character after a newline in column 0.
\<close>

definition offsetToPoint :: "string \<Rightarrow> nat \<Rightarrow> Point" where
  "offsetToPoint text loc =
     (let buf = take loc text
      in \<lparr>row = countOccurrences buf EOL, column = loc - lineStart buf\<rparr>)"

text \<open>
  Modelled from the spec: \<^verbatim>\<open>locToRange\<close> is imported from \<^verbatim>\<open>../utils/Range\<close>, which is
  not among the source files. The spec has it convert a "location span into start/end
  positions using the same offset-to-position conversion".
\<close>

definition locToRange :: "string \<Rightarrow> Location \<Rightarrow> Range" where
  "locToRange text loc =
     \<lparr>range_start = offsetToPoint text (loc_start loc),
      range_end = offsetToPoint text (loc_end loc)\<rparr>"

text \<open>
  The two \<^verbatim>\<open>invariant\<close> calls throw when the name, or its location, is \<^verbatim>\<open>null\<close> or
  \<^verbatim>\<open>undefined\<close>. The parameter \<^verbatim>\<open>path\<close> is \<open>uri\<close> here.
\<close>

definition getDefinitionForFragmentDefinition ::
  "string \<Rightarrow> string \<Rightarrow> DefinitionNode \<Rightarrow> error + Definition" where
  "getDefinitionForFragmentDefinition uri text definition =
     (case definitionName definition of
        None \<Rightarrow> Inl (InvariantViolation ''Name node expected.'')
      | Some nameNode \<Rightarrow>
          (case name_loc nameNode of
             None \<Rightarrow> Inl (InvariantViolation ''Location for Name node expected.'')
           | Some nameLoc \<Rightarrow>
               Inr \<lparr>path = uri,
                    position = offsetToPoint text (loc_start nameLoc),
                    drange = locToRange text (definitionLoc definition),
                    name = name_value nameNode,
                    language = LANGUAGE,
                    projectRoot = uri\<rparr>))"

text \<open>
  The object literal evaluates \<^verbatim>\<open>definitions\<close> before \<^verbatim>\<open>queryRange\<close>, so a name without
  a location fails in \<^verbatim>\<open>getDefinitionForFragmentDefinition\<close> before \<^verbatim>\<open>locToRange\<close> reads
  it.
\<close>

definition getDefinitionQueryResultForDefinitionNode ::
  "string \<Rightarrow> string \<Rightarrow> DefinitionNode \<Rightarrow> error + DefinitionQueryResult" where
  "getDefinitionQueryResultForDefinitionNode uri text definition =
     (case definitionName definition of
        None \<Rightarrow> Inl (InvariantViolation ''Name node expected.'')
      | Some nameNode \<Rightarrow>
          (case getDefinitionForFragmentDefinition uri text definition of
             Inl e \<Rightarrow> Inl e
           | Inr d \<Rightarrow>
               (case name_loc nameNode of
                  None \<Rightarrow> Inl TypeError
                | Some nameLoc \<Rightarrow>
                    Inr \<lparr>queryRange = [locToRange text nameLoc], definitions = [d]\<rparr>)))"

text \<open>
  \<^verbatim>\<open>defNodes === []\<close> compares the array \<^verbatim>\<open>filter\<close> returned with an array that the
  literal \<^verbatim>\<open>[]\<close> has just created. Strict equality on objects is identity, so the
  comparison is false whatever \<^verbatim>\<open>defNodes\<close> holds.
\<close>

definition strictEqualsNewArray :: "'a list \<Rightarrow> bool" where
  "strictEqualsNewArray defNodes = False"

text \<open>\<^verbatim>\<open>filePath || ''\<close>: an absent path and the empty path both give the empty string.\<close>

definition orEmpty :: "string option \<Rightarrow> string" where
  "orEmpty p = (case p of None \<Rightarrow> [] | Some s \<Rightarrow> (if s = [] then [] else s))"

text \<open>\<^verbatim>\<open>Array.prototype.map\<close> with a callback that may throw: the first throw ends the map.\<close>

fun mapResult :: "('a \<Rightarrow> error + 'b) \<Rightarrow> 'a list \<Rightarrow> error + 'b list" where
  "mapResult f [] = Inr []"
| "mapResult f (x # xs) =
     (case f x of
        Inl e \<Rightarrow> Inl e
      | Inr y \<Rightarrow> (case mapResult f xs of Inl e \<Rightarrow> Inl e | Inr ys \<Rightarrow> Inr (y # ys)))"

text \<open>
  The result is the pair of what the call writes to \<^verbatim>\<open>process.stderr\<close> and of what the
  promise settles to.
\<close>

definition getDefinitionQueryResultForFragmentSpread ::
  "string \<Rightarrow> FragmentSpreadNode \<Rightarrow> FragmentInfo list
     \<Rightarrow> string list \<times> (error + DefinitionQueryResult)" where
  "getDefinitionQueryResultForFragmentSpread text fragment dependencies =
     (let fragmentName = name_value (spread_name fragment);
          defNodes =
            filter (\<lambda>fi. name_value (fragment_name (definitionNode fi)) = fragmentName)
              dependencies
      in if strictEqualsNewArray defNodes then
           ([''Definition not found for GraphQL fragment '' @ fragmentName],
            Inr \<lparr>queryRange = [], definitions = []\<rparr>)
         else
           ([],
            case mapResult
                   (\<lambda>fi. getDefinitionForFragmentDefinition (orEmpty (filePath fi))
                           (content fi) (FragmentDefinition (definitionNode fi)))
                   defNodes of
              Inl e \<Rightarrow> Inl e
            | Inr ds \<Rightarrow>
                Inr \<lparr>queryRange = map (\<lambda>_. locToRange text (spread_loc fragment)) ds,
                     definitions = ds\<rparr>))"

section \<open>Notions used by the statements\<close>

text \<open>The entries of the known fragments that a spread's name matches.\<close>

definition matching :: "FragmentSpreadNode \<Rightarrow> FragmentInfo list \<Rightarrow> FragmentInfo list" where
  "matching fragment dependencies =
     filter (\<lambda>fi. name_value (fragment_name (definitionNode fi)) = name_value (spread_name fragment))
       dependencies"

text \<open>
  The lines a scan from row \<open>start\<close> can reach: at most \<open>MAX_PREVIEW_LINES\<close> lines, and no
  further than the end of the file.
\<close>

definition window :: "string list \<Rightarrow> nat \<Rightarrow> string list" where
  "window lines start = take MAX_PREVIEW_LINES (drop start lines)"

definition parens :: "char \<Rightarrow> string list \<Rightarrow> nat" where
  "parens c ls = sum_list (map (\<lambda>l. countOccurrences l c) ls)"

text \<open>
  The stopping condition at the \<open>k\<close>-th line of \<open>ws\<close>, the lines from the first scanned one
  on: the line is indented no deeper than the first line, and the lines up to and including
  it hold as many opening as closing parentheses.
\<close>

definition stopsAt :: "string list \<Rightarrow> nat \<Rightarrow> bool" where
  "stopsAt ws k \<longleftrightarrow>
     getIndentLevel (ws ! k) \<le> getIndentLevel (ws ! 0) \<and>
     parens CHR ''('' (take (Suc k) ws) = parens CHR '')'' (take (Suc k) ws)"

text \<open>The loop as a structural recursion over the lines still to scan.\<close>

fun cut :: "nat \<Rightarrow> nat \<Rightarrow> nat \<Rightarrow> string list \<Rightarrow> string list" where
  "cut initial opened closed [] = []"
| "cut initial opened closed (l # ls) =
     (let opened' = opened + countOccurrences l CHR ''('';
          closed' = closed + countOccurrences l CHR '')''
      in if getIndentLevel l \<le> initial \<and> opened' = closed' then [l]
         else l # cut initial opened' closed' ls)"

text \<open>The number of lines of a text.\<close>

definition lineCount :: "string \<Rightarrow> nat" where
  "lineCount s = length (split EOL s)"

text \<open>
  The positions of the newline characters of \<open>text\<close> before the offset \<open>loc\<close>, in
  increasing order.
\<close>

definition newlinesBefore :: "string \<Rightarrow> nat \<Rightarrow> nat list" where
  "newlinesBefore text loc = filter (\<lambda>i. text ! i = EOL) [0..<min loc (length text)]"

section \<open>Sample inputs\<close>

text \<open>The spread \<^verbatim>\<open>...F\<close> in the query \<^verbatim>\<open>{ ...F }\<close>, and known fragments named \<^verbatim>\<open>F\<close>.\<close>

definition spreadF :: FragmentSpreadNode where
  "spreadF =
     \<lparr>spread_name = \<lparr>name_value = ''F'', name_loc = Some \<lparr>loc_start = 5, loc_end = 6\<rparr>\<rparr>,
      spread_loc = \<lparr>loc_start = 2, loc_end = 6\<rparr>\<rparr>"

definition fragmentF :: "Location option \<Rightarrow> FragmentDefinitionNode" where
  "fragmentF l =
     \<lparr>fragment_name = \<lparr>name_value = ''F'', name_loc = l\<rparr>,
      fragment_loc = \<lparr>loc_start = 0, loc_end = 21\<rparr>\<rparr>"

definition knownF :: "string option \<Rightarrow> Location option \<Rightarrow> FragmentInfo" where
  "knownF p l =
     \<lparr>filePath = p, content = ''fragment F on T { x }'', definitionNode = fragmentF l\<rparr>"

definition knownG :: FragmentInfo where
  "knownG =
     \<lparr>filePath = Some ''g.graphql'', content = ''fragment G on T { y }'',
      definitionNode =
        \<lparr>fragment_name = \<lparr>name_value = ''G'', name_loc = Some \<lparr>loc_start = 9, loc_end = 10\<rparr>\<rparr>,
         fragment_loc = \<lparr>loc_start = 0, loc_end = 21\<rparr>\<rparr>\<rparr>"

definition nameOfF :: Location where
  "nameOfF = \<lparr>loc_start = 9, loc_end = 10\<rparr>"

text \<open>Two queries on two lines, the definition of the second, and a query without a name.\<close>

definition twoQueries :: string where
  "twoQueries = ''query A { x }'' @ EOL # ''query B { y }''"

definition queryB :: DefinitionNode where
  "queryB = OperationDefinition
     \<lparr>operation_name = Some \<lparr>name_value = ''B'', name_loc = Some \<lparr>loc_start = 20, loc_end = 21\<rparr>\<rparr>,
      operation_loc = \<lparr>loc_start = 14, loc_end = 27\<rparr>\<rparr>"

definition anonymousQuery :: DefinitionNode where
  "anonymousQuery = OperationDefinition
     \<lparr>operation_name = None, operation_loc = \<lparr>loc_start = 0, loc_end = 5\<rparr>\<rparr>"

text \<open>
  A file whose method signature closes on its fourth line, and a file of twelve lines
  whose parentheses never balance.
\<close>

definition classFile :: string where
  "classFile =
     join EOL [''class A {'', ''  foo(a,'', ''      b) {'', ''    return a;'', ''  }'', ''}'']"

definition openFile :: string where
  "openFile =
     join EOL [''f('', ''f('', ''f('', ''f('', ''f('', ''f('', ''f('', ''f('', ''f('', ''f('',
       ''f('', ''f('']"

definition definitionAt :: "string \<Rightarrow> nat \<Rightarrow> Definition" where
  "definitionAt p r =
     \<lparr>path = p, position = \<lparr>row = r, column = 0\<rparr>,
      drange = \<lparr>range_start = \<lparr>row = r, column = 0\<rparr>, range_end = \<lparr>row = r, column = 0\<rparr>\<rparr>,
      name = ''f'', language = ''JavaScript'', projectRoot = p\<rparr>"

section \<open>Lines\<close>

lemma split_not_Nil: "split sep s \<noteq> []"
  by (induction s) (auto split: list.splits)

lemma split_no_sep: "l \<in> set (split sep s) \<Longrightarrow> sep \<notin> set l"
proof (induction s arbitrary: l)
  case Nil
  then show ?case by simp
next
  case (Cons c cs)
  show ?case
  proof (cases "c = sep")
    case True
    with Cons show ?thesis by auto
  next
    case False
    obtain h t where ht: "split sep cs = h # t"
      using split_not_Nil [of sep cs] by (cases "split sep cs") auto
    with False Cons.prems have "l = c # h \<or> l \<in> set t" by auto
    moreover have "sep \<notin> set h" using Cons.IH [of h] ht by simp
    moreover have "l \<in> set t \<Longrightarrow> sep \<notin> set l" using Cons.IH [of l] ht by simp
    ultimately show ?thesis using False by auto
  qed
qed

lemma split_line: "sep \<notin> set l \<Longrightarrow> split sep l = [l]"
  by (induction l) auto

lemma split_append_sep:
  "sep \<notin> set l \<Longrightarrow> split sep (l @ sep # s) = l # split sep s"
  by (induction l) auto

lemma split_join:
  "ls \<noteq> [] \<Longrightarrow> \<forall>l \<in> set ls. sep \<notin> set l \<Longrightarrow> split sep (join sep ls) = ls"
proof (induction sep ls rule: join.induct)
  case (1 sep)
  then show ?case by simp
next
  case (2 sep l)
  then show ?case by (simp add: split_line)
next
  case (3 sep l v va)
  then show ?case by (simp add: split_append_sep)
qed

lemma lineCount_join:
  "ls \<noteq> [] \<Longrightarrow> \<forall>l \<in> set ls. EOL \<notin> set l \<Longrightarrow> lineCount (join EOL ls) = length ls"
  by (simp add: lineCount_def split_join)

lemma lineCount_dedent: "lineCount (dedent s) = lineCount s"
proof -
  define m where "m = minimum (map getIndentLevel (filter (\<lambda>l. l \<noteq> []) (split EOL s)))"
  have d: "dedent s = join EOL (map (drop m) (split EOL s))"
    by (simp add: dedent_def m_def Let_def)
  have "\<forall>l \<in> set (map (drop m) (split EOL s)). EOL \<notin> set l"
    using split_no_sep [of _ EOL s] by (auto dest: in_set_dropD)
  moreover have "map (drop m) (split EOL s) \<noteq> []"
    by (simp add: split_not_Nil)
  ultimately have "lineCount (join EOL (map (drop m) (split EOL s))) = length (map (drop m) (split EOL s))"
    by (rule lineCount_join [rotated])
  then show ?thesis by (simp add: d lineCount_def)
qed

lemma indent_simps:
  "getIndentLevel [] = 0"
  "getIndentLevel (c # cs) = (if isWhitespace c then Suc (getIndentLevel cs) else 0)"
  by (simp_all add: getIndentLevel_def)

lemma count_simps:
  "countOccurrences [] c = 0"
  "countOccurrences (x # xs) c = (if x = c then Suc (countOccurrences xs c) else countOccurrences xs c)"
  by (simp_all add: countOccurrences_def)

lemma classFile_lines:
  "split EOL classFile = [''class A {'', ''  foo(a,'', ''      b) {'', ''    return a;'', ''  }'', ''}'']"
  unfolding classFile_def by (rule split_join) (simp_all add: EOL_def)

lemma openFile_lines:
  "split EOL openFile = [''f('', ''f('', ''f('', ''f('', ''f('', ''f('', ''f('', ''f('', ''f('', ''f('', ''f('', ''f('']"
  unfolding openFile_def by (rule split_join) (simp_all add: EOL_def)

section \<open>The scan\<close>

lemma scanLines_cut:
  "scanLines lines start initial i opened closed buffer =
     buffer @ cut initial opened closed (take (start + MAX_PREVIEW_LINES - i) (drop i lines))"
proof (induction lines start initial i opened closed buffer rule: scanLines.induct)
  case (1 lines start initial i opened closed buffer)
  show ?case
  proof (cases "i < start + MAX_PREVIEW_LINES \<and> i < length lines")
    case True
    then have d: "drop i lines = lines ! i # drop (Suc i) lines"
      by (simp add: Cons_nth_drop_Suc)
    from True have t: "start + MAX_PREVIEW_LINES - i = Suc (start + MAX_PREVIEW_LINES - Suc i)"
      by arith
    have w: "take (start + MAX_PREVIEW_LINES - i) (drop i lines)
               = lines ! i # take (start + MAX_PREVIEW_LINES - Suc i) (drop (Suc i) lines)"
      by (subst t, subst d) simp
    show ?thesis
    proof (cases "getIndentLevel (lines ! i) \<le> initial \<and>
        opened + countOccurrences (lines ! i) CHR ''('' = closed + countOccurrences (lines ! i) CHR '')''")
      case stop: True
      show ?thesis
        by (subst scanLines.simps, subst w) (use True stop in \<open>simp add: Let_def\<close>)
    next
      case go: False
      have ih: "scanLines lines start initial (i + 1)
                  (opened + countOccurrences (lines ! i) CHR ''('')
                  (closed + countOccurrences (lines ! i) CHR '')'') (buffer @ [lines ! i])
                = (buffer @ [lines ! i]) @ cut initial
                    (opened + countOccurrences (lines ! i) CHR ''('')
                    (closed + countOccurrences (lines ! i) CHR '')'')
                    (take (start + MAX_PREVIEW_LINES - (i + 1)) (drop (i + 1) lines))"
        using "1.IH" [OF True refl refl refl refl refl] go by simp
      show ?thesis
        by (subst scanLines.simps, subst w) (use True go ih in \<open>auto simp: Let_def\<close>)
    qed
  next
    case False
    then have e: "take (start + MAX_PREVIEW_LINES - i) (drop i lines) = []"
      by auto
    have "scanLines lines start initial i opened closed buffer = buffer"
      by (subst scanLines.simps) (use False in auto)
    then show ?thesis
      by (simp add: e)
  qed
qed

lemma previewBuffer_cut:
  "previewBuffer contents start =
     cut (getIndentLevel (if start < length (split EOL contents)
                          then split EOL contents ! start else ''undefined'')) 0 0
       (window (split EOL contents) start)"
  by (simp add: previewBuffer_def Let_def scanLines_cut window_def)

lemma length_cut: "length (cut initial opened closed ws) \<le> length ws"
  by (induction ws arbitrary: opened closed) (auto simp: Let_def)

lemma set_cut: "set (cut initial opened closed ws) \<subseteq> set ws"
  by (induction ws arbitrary: opened closed) (auto simp: Let_def)

lemma cut_not_Nil: "ws \<noteq> [] \<Longrightarrow> cut initial opened closed ws \<noteq> []"
  by (cases ws) (auto simp: Let_def)

lemma parens_Cons: "parens c (l # ls) = countOccurrences l c + parens c ls"
  by (simp add: parens_def)

lemma cut_first:
  assumes "k < length ws"
    and "getIndentLevel (ws ! k) \<le> initial"
    and "opened + parens CHR ''('' (take (Suc k) ws) = closed + parens CHR '')'' (take (Suc k) ws)"
    and "\<forall>j<k. \<not> (getIndentLevel (ws ! j) \<le> initial \<and>
            opened + parens CHR ''('' (take (Suc j) ws) = closed + parens CHR '')'' (take (Suc j) ws))"
  shows "cut initial opened closed ws = take (Suc k) ws"
  using assms
proof (induction ws arbitrary: k opened closed)
  case Nil
  then show ?case by simp
next
  case (Cons l ls)
  show ?case
  proof (cases k)
    case 0
    with Cons.prems show ?thesis by (simp add: parens_def Let_def)
  next
    case (Suc k')
    from Cons.prems(4) Suc have
      go: "\<not> (getIndentLevel l \<le> initial \<and>
             opened + countOccurrences l CHR ''('' = closed + countOccurrences l CHR '')'')"
      by (auto simp: parens_def dest: spec [of _ 0])
    have later: "\<forall>j<k'. \<not> (getIndentLevel (ls ! j) \<le> initial \<and>
        (opened + countOccurrences l CHR ''('') + parens CHR ''('' (take (Suc j) ls)
        = (closed + countOccurrences l CHR '')'') + parens CHR '')'' (take (Suc j) ls))"
    proof (intro allI impI)
      fix j assume "j < k'"
      then have "Suc j < k" using Suc by simp
      with Cons.prems(4) show "\<not> (getIndentLevel (ls ! j) \<le> initial \<and>
        (opened + countOccurrences l CHR ''('') + parens CHR ''('' (take (Suc j) ls)
        = (closed + countOccurrences l CHR '')'') + parens CHR '')'' (take (Suc j) ls))"
        by (auto simp: parens_Cons add.assoc dest!: spec [of _ "Suc j"])
    qed
    have "cut initial (opened + countOccurrences l CHR ''('') (closed + countOccurrences l CHR '')'') ls
            = take (Suc k') ls"
    proof (rule Cons.IH)
      show "k' < length ls" using Cons.prems(1) Suc by simp
      show "getIndentLevel (ls ! k') \<le> initial" using Cons.prems(2) Suc by simp
      show "opened + countOccurrences l CHR ''('' + parens CHR ''('' (take (Suc k') ls) =
            closed + countOccurrences l CHR '')'' + parens CHR '')'' (take (Suc k') ls)"
        using Cons.prems(3) Suc by (simp add: parens_Cons add.assoc)
      show "\<forall>j<k'. \<not> (getIndentLevel (ls ! j) \<le> initial \<and>
        (opened + countOccurrences l CHR ''('') + parens CHR ''('' (take (Suc j) ls)
        = (closed + countOccurrences l CHR '')'') + parens CHR '')'' (take (Suc j) ls))"
        by (rule later)
    qed
    with go Suc show ?thesis by (auto simp: Let_def)
  qed
qed

lemma cut_none:
  assumes "\<forall>j<length ws. \<not> (getIndentLevel (ws ! j) \<le> initial \<and>
            opened + parens CHR ''('' (take (Suc j) ws) = closed + parens CHR '')'' (take (Suc j) ws))"
  shows "cut initial opened closed ws = ws"
  using assms
proof (induction ws arbitrary: opened closed)
  case Nil
  then show ?case by simp
next
  case (Cons l ls)
  from Cons.prems have
    go: "\<not> (getIndentLevel l \<le> initial \<and>
           opened + countOccurrences l CHR ''('' = closed + countOccurrences l CHR '')'')"
    by (auto simp: parens_def dest: spec [of _ 0])
  have "cut initial (opened + countOccurrences l CHR ''('') (closed + countOccurrences l CHR '')'') ls = ls"
  proof (rule Cons.IH, intro allI impI)
    fix j assume "j < length ls"
    then have "Suc j < length (l # ls)" by simp
    with Cons.prems show "\<not> (getIndentLevel (ls ! j) \<le> initial \<and>
        (opened + countOccurrences l CHR ''('') + parens CHR ''('' (take (Suc j) ls)
        = (closed + countOccurrences l CHR '')'') + parens CHR '')'' (take (Suc j) ls))"
      by (auto simp: parens_Cons add.assoc dest!: spec [of _ "Suc j"])
  qed
  with go show ?case by (auto simp: Let_def)
qed

lemma stopsAt_window:
  assumes "k < MAX_PREVIEW_LINES" and "start + k < length lines"
  shows "stopsAt (window lines start) k = stopsAt (drop start lines) k"
proof -
  have "0 < MAX_PREVIEW_LINES" using assms(1) by simp
  then have z: "window lines start ! 0 = drop start lines ! 0"
    by (simp add: window_def)
  have n: "window lines start ! k = drop start lines ! k"
    using assms(1) by (simp add: window_def)
  have t: "take (Suc k) (window lines start) = take (Suc k) (drop start lines)"
    using assms(1) by (simp add: window_def min_def)
  show ?thesis
    unfolding stopsAt_def z n t ..
qed

lemma length_window: "length (window lines start) = min MAX_PREVIEW_LINES (length lines - start)"
  by (simp add: window_def)

lemma previewBuffer_window:
  assumes "start < length (split EOL contents)"
  shows "previewBuffer contents start =
     cut (getIndentLevel (window (split EOL contents) start ! 0)) 0 0
       (window (split EOL contents) start)"
proof -
  have "window (split EOL contents) start ! 0 = split EOL contents ! start"
    using assms by (simp add: window_def MAX_PREVIEW_LINES_def)
  then show ?thesis using assms by (simp add: previewBuffer_cut)
qed

lemma previewBuffer_stops:
  assumes "k < MAX_PREVIEW_LINES" and "start + k < length (split EOL contents)"
    and "stopsAt (drop start (split EOL contents)) k"
    and "\<forall>j<k. \<not> stopsAt (drop start (split EOL contents)) j"
  shows "previewBuffer contents start = take (Suc k) (drop start (split EOL contents))"
proof -
  let ?ws = "window (split EOL contents) start"
  have k: "k < length ?ws" using assms(1,2) by (simp add: length_window)
  have s: "stopsAt ?ws k" using assms(1,2,3) by (simp add: stopsAt_window)
  have e: "\<forall>j<k. \<not> stopsAt ?ws j"
  proof (intro allI impI)
    fix j assume "j < k"
    then have "j < MAX_PREVIEW_LINES" "start + j < length (split EOL contents)" "\<not> stopsAt (drop start (split EOL contents)) j"
      using assms by auto
    then show "\<not> stopsAt ?ws j" by (simp add: stopsAt_window)
  qed
  have "cut (getIndentLevel (?ws ! 0)) 0 0 ?ws = take (Suc k) ?ws"
  proof (rule cut_first [OF k])
    show "getIndentLevel (?ws ! k) \<le> getIndentLevel (?ws ! 0)"
      using s by (simp add: stopsAt_def)
    show "0 + parens CHR ''('' (take (Suc k) ?ws) = 0 + parens CHR '')'' (take (Suc k) ?ws)"
      using s by (simp add: stopsAt_def)
    show "\<forall>j<k. \<not> (getIndentLevel (?ws ! j) \<le> getIndentLevel (?ws ! 0) \<and>
            0 + parens CHR ''('' (take (Suc j) ?ws) = 0 + parens CHR '')'' (take (Suc j) ?ws))"
      using e by (simp add: stopsAt_def)
  qed
  moreover have "take (Suc k) ?ws = take (Suc k) (drop start (split EOL contents))"
    using assms(1) by (simp add: window_def min_def)
  moreover have "start < length (split EOL contents)" using assms(2) by simp
  ultimately show ?thesis by (simp add: previewBuffer_window)
qed

lemma previewBuffer_cap:
  assumes "start < length (split EOL contents)"
    and "\<forall>k<length (window (split EOL contents) start). \<not> stopsAt (drop start (split EOL contents)) k"
  shows "previewBuffer contents start = window (split EOL contents) start"
proof -
  let ?ws = "window (split EOL contents) start"
  have "cut (getIndentLevel (?ws ! 0)) 0 0 ?ws = ?ws"
  proof (rule cut_none, intro allI impI)
    fix j assume j: "j < length ?ws"
    then have "j < MAX_PREVIEW_LINES" "start + j < length (split EOL contents)"
      by (auto simp: length_window)
    moreover have "\<not> stopsAt (drop start (split EOL contents)) j" using assms(2) j by simp
    ultimately have "\<not> stopsAt ?ws j" by (simp add: stopsAt_window)
    then show "\<not> (getIndentLevel (?ws ! j) \<le> getIndentLevel (?ws ! 0) \<and>
            0 + parens CHR ''('' (take (Suc j) ?ws) = 0 + parens CHR '')'' (take (Suc j) ?ws))"
      by (simp add: stopsAt_def)
  qed
  then show ?thesis using assms(1) by (simp add: previewBuffer_window)
qed

lemma previewBuffer_bounds:
  assumes "start < length (split EOL contents)"
  shows "previewBuffer contents start \<noteq> []"
    and "length (previewBuffer contents start) \<le> MAX_PREVIEW_LINES"
    and "\<forall>l \<in> set (previewBuffer contents start). EOL \<notin> set l"
proof -
  let ?ws = "window (split EOL contents) start"
  have b: "previewBuffer contents start = cut (getIndentLevel (?ws ! 0)) 0 0 ?ws"
    using assms by (rule previewBuffer_window)
  have "?ws \<noteq> []" using assms by (simp add: window_def MAX_PREVIEW_LINES_def)
  then show "previewBuffer contents start \<noteq> []" by (simp add: b cut_not_Nil)
  have "length (previewBuffer contents start) \<le> length ?ws"
    by (simp add: b length_cut)
  then show "length (previewBuffer contents start) \<le> MAX_PREVIEW_LINES"
    by (simp add: length_window)
  have "set (previewBuffer contents start) \<subseteq> set (split EOL contents)"
    using set_cut [of "getIndentLevel (?ws ! 0)" 0 0 ?ws]
    by (auto simp: b window_def dest: in_set_takeD in_set_dropD)
  then show "\<forall>l \<in> set (previewBuffer contents start). EOL \<notin> set l"
    using split_no_sep by blast
qed

lemma getDefinitionPreview_read:
  "fs (path d) = Some contents \<Longrightarrow>
   getDefinitionPreview fs d = Inr (dedent (join EOL (previewBuffer contents (row (position d)))))"
  by (simp add: getDefinitionPreview_def readFile_def)

section \<open>Offsets and positions\<close>

lemma newlinesBefore_take:
  "newlinesBefore text loc = filter (\<lambda>i. take loc text ! i = EOL) [0..<length (take loc text)]"
  unfolding newlinesBefore_def by (rule filter_cong) (simp_all add: min.commute)

lemma count_indices:
  "countOccurrences buf c = length (filter (\<lambda>i. buf ! i = c) [0..<length buf])"
proof -
  have "filter (\<lambda>x. x = c) (map (nth buf) [0..<length buf])
          = map (nth buf) (filter (\<lambda>i. buf ! i = c) [0..<length buf])"
    by (simp add: filter_map comp_def)
  then have "length (filter (\<lambda>x. x = c) buf) = length (filter (\<lambda>i. buf ! i = c) [0..<length buf])"
    by (simp add: map_nth)
  then show ?thesis by (simp add: countOccurrences_def)
qed

lemma indices_snoc:
  "filter (\<lambda>i. (buf @ [c]) ! i = EOL) [0..<length (buf @ [c])]
     = filter (\<lambda>i. buf ! i = EOL) [0..<length buf] @ (if c = EOL then [length buf] else [])"
proof -
  have "filter (\<lambda>i. (buf @ [c]) ! i = EOL) [0..<length buf]
          = filter (\<lambda>i. buf ! i = EOL) [0..<length buf]"
    by (rule filter_cong) (simp_all add: nth_append)
  then show ?thesis by simp
qed

lemma lineStart_snoc:
  "lineStart (buf @ [c]) = (if c = EOL then Suc (length buf) else lineStart buf)"
proof -
  have "length (takeWhile (\<lambda>c. c \<noteq> EOL) (rev buf)) \<le> length buf"
    using length_takeWhile_le [of "\<lambda>c. c \<noteq> EOL" "rev buf"] by simp
  then show ?thesis by (simp add: lineStart_def)
qed

lemma lineStart_indices:
  "lineStart buf =
     (let nl = filter (\<lambda>i. buf ! i = EOL) [0..<length buf]
      in if nl = [] then 0 else Suc (last nl))"
proof (induction buf rule: rev_induct)
  case Nil
  then show ?case by (simp add: lineStart_def)
next
  case (snoc c buf)
  show ?case
    unfolding indices_snoc lineStart_snoc using snoc by (simp add: Let_def)
qed

lemma offsetToPoint_newlines:
  "row (offsetToPoint text loc) = length (newlinesBefore text loc)"
  "column (offsetToPoint text loc) =
     (if newlinesBefore text loc = [] then loc else loc - Suc (last (newlinesBefore text loc)))"
proof -
  show "row (offsetToPoint text loc) = length (newlinesBefore text loc)"
    by (simp add: offsetToPoint_def Let_def newlinesBefore_take count_indices)
  have "lineStart (take loc text) =
      (if newlinesBefore text loc = [] then 0 else Suc (last (newlinesBefore text loc)))"
    unfolding newlinesBefore_take using lineStart_indices [of "take loc text"]
    by (simp add: Let_def)
  then show "column (offsetToPoint text loc) =
     (if newlinesBefore text loc = [] then loc else loc - Suc (last (newlinesBefore text loc)))"
    by (simp add: offsetToPoint_def Let_def)
qed

section \<open>Building definitions\<close>

lemma mapResult_all:
  "\<forall>x \<in> set xs. \<exists>y. f x = Inr y \<Longrightarrow>
   \<exists>ys. mapResult f xs = Inr ys"
proof (induction xs)
  case Nil
  then show ?case by simp
next
  case (Cons x xs)
  then obtain y where y: "f x = Inr y" by auto
  from Cons obtain ys where ys: "mapResult f xs = Inr ys" by auto
  show ?case using y ys by simp
qed

lemma mapResult_Inr:
  "mapResult f xs = Inr ys \<Longrightarrow>
   length ys = length xs \<and> (\<forall>i < length xs. f (xs ! i) = Inr (ys ! i))"
proof (induction xs arbitrary: ys)
  case Nil
  then show ?case by simp
next
  case (Cons x xs)
  then show ?case
    by (auto simp: nth_Cons split: sum.splits nat.splits)
qed

lemma builder_Inr:
  "definitionName definition = Some nameNode \<Longrightarrow> name_loc nameNode = Some nameLoc \<Longrightarrow>
   getDefinitionForFragmentDefinition uri text definition =
     Inr \<lparr>path = uri, position = offsetToPoint text (loc_start nameLoc),
          drange = locToRange text (definitionLoc definition), name = name_value nameNode,
          language = LANGUAGE, projectRoot = uri\<rparr>"
  by (simp add: getDefinitionForFragmentDefinition_def)

lemma builder_path:
  "getDefinitionForFragmentDefinition uri text definition = Inr d \<Longrightarrow>
   path d = uri \<and> projectRoot d = uri"
  by (auto simp: getDefinitionForFragmentDefinition_def split: option.splits)

lemma spread_result:
  "snd (getDefinitionQueryResultForFragmentSpread text fragment dependencies) =
     (case mapResult
             (\<lambda>fi. getDefinitionForFragmentDefinition (orEmpty (filePath fi))
                     (content fi) (FragmentDefinition (definitionNode fi)))
             (matching fragment dependencies) of
        Inl e \<Rightarrow> Inl e
      | Inr ds \<Rightarrow>
          Inr \<lparr>queryRange = map (\<lambda>_. locToRange text (spread_loc fragment)) ds,
               definitions = ds\<rparr>)"
  by (simp add: getDefinitionQueryResultForFragmentSpread_def matching_def
      strictEqualsNewArray_def Let_def)

lemma spread_stderr:
  "fst (getDefinitionQueryResultForFragmentSpread text fragment dependencies) = []"
  by (simp add: getDefinitionQueryResultForFragmentSpread_def strictEqualsNewArray_def Let_def)

lemma spread_wellformed:
  assumes "\<forall>fi \<in> set (matching fragment dependencies).
             name_loc (fragment_name (definitionNode fi)) \<noteq> None"
  shows "\<exists>ds. mapResult
             (\<lambda>fi. getDefinitionForFragmentDefinition (orEmpty (filePath fi))
                     (content fi) (FragmentDefinition (definitionNode fi)))
             (matching fragment dependencies) = Inr ds"
proof (rule mapResult_all, rule ballI)
  fix fi assume "fi \<in> set (matching fragment dependencies)"
  with assms obtain l where "name_loc (fragment_name (definitionNode fi)) = Some l" by auto
  then show "\<exists>y. getDefinitionForFragmentDefinition (orEmpty (filePath fi))
                     (content fi) (FragmentDefinition (definitionNode fi)) = Inr y"
    by (simp add: getDefinitionForFragmentDefinition_def)
qed

section \<open>The preview extractor\<close>

text \<open>
  C1. The scan of \<^verbatim>\<open>getDefinitionPreview\<close> starts at the row of the definition and takes
  the lines one after the other. When line \<open>k\<close> after the start is the first scanned line
  that is indented no deeper than the start line and up to which the opening and the
  closing parentheses are equal in number, the scan ends with that line included: the
  result is the lines from the start to that line, joined with newlines and dedented. The
  scanned lines are those the cap of \<open>MAX_PREVIEW_LINES\<close> and the end of the file allow.
\<close>

theorem preview_stops_at_first_balanced_line:
  assumes "fs (path d) = Some contents"
    and "k < MAX_PREVIEW_LINES"
    and "row (position d) + k < length (split EOL contents)"
    and "stopsAt (drop (row (position d)) (split EOL contents)) k"
    and "\<forall>j<k. \<not> stopsAt (drop (row (position d)) (split EOL contents)) j"
  shows "getDefinitionPreview fs d =
           Inr (dedent (join EOL (take (Suc k) (drop (row (position d)) (split EOL contents)))))"
  using assms(1) previewBuffer_stops [OF assms(2-5)] by (simp add: getDefinitionPreview_read)

theorem preview_stops_at_first_balanced_line_witness:
  "stopsAt (drop 1 (split EOL classFile)) 3 \<and>
   getDefinitionPreview [''A.js'' \<mapsto> classFile] (definitionAt ''A.js'' 1)
     = Inr (join EOL [''foo(a,'', ''    b) {'', ''  return a;'', ''}''])"
proof -
  let ?d = "definitionAt ''A.js'' 1"
  have h1: "[''A.js'' \<mapsto> classFile] (path ?d) = Some classFile"
    by (simp add: definitionAt_def)
  have h2: "3 < MAX_PREVIEW_LINES"
    by (simp add: MAX_PREVIEW_LINES_def)
  have h3: "row (position ?d) + 3 < length (split EOL classFile)"
    by (simp add: definitionAt_def classFile_lines)
  have h4: "stopsAt (drop (row (position ?d)) (split EOL classFile)) 3"
    by (simp add: definitionAt_def classFile_lines stopsAt_def parens_def indent_simps
        count_simps isWhitespace_def)
  have h5: "\<forall>j<3. \<not> stopsAt (drop (row (position ?d)) (split EOL classFile)) j"
  proof (intro allI impI)
    fix j :: nat assume "j < 3"
    then consider "j = 0" | "j = 1" | "j = 2" by linarith
    then show "\<not> stopsAt (drop (row (position ?d)) (split EOL classFile)) j"
      by cases
        (simp_all add: definitionAt_def classFile_lines stopsAt_def parens_def indent_simps
          count_simps isWhitespace_def)
  qed
  have d: "dedent (join EOL [''  foo(a,'', ''      b) {'', ''    return a;'', ''  }''])
             = join EOL [''foo(a,'', ''    b) {'', ''  return a;'', ''}'']"
  proof -
    have "split EOL (join EOL [''  foo(a,'', ''      b) {'', ''    return a;'', ''  }''])
            = [''  foo(a,'', ''      b) {'', ''    return a;'', ''  }'']"
      by (rule split_join) (simp_all add: EOL_def)
    then show ?thesis
      unfolding dedent_def by (simp add: indent_simps isWhitespace_def)
  qed
  have "getDefinitionPreview [''A.js'' \<mapsto> classFile] ?d
          = Inr (dedent (join EOL (take (Suc 3) (drop (row (position ?d)) (split EOL classFile)))))"
    by (rule preview_stops_at_first_balanced_line
          [of "[''A.js'' \<mapsto> classFile]" ?d classFile 3, OF h1 h2 h3 h4 h5])
  then show ?thesis using h4 d by (simp add: definitionAt_def classFile_lines)
qed

text \<open>
  C2. For a row that is a line of the file, \<^verbatim>\<open>getDefinitionPreview\<close> returns at most 10
  lines, from a buffer of at most 10 lines. When no scanned line meets the stopping
  condition, the result is made of all the lines from the start up to the cap of 10 lines
  or the end of the file, whichever comes first.
\<close>

theorem preview_at_most_ten_lines:
  assumes "fs (path d) = Some contents"
    and "row (position d) < length (split EOL contents)"
  shows "\<exists>s. getDefinitionPreview fs d = Inr s \<and> lineCount s \<le> 10
           \<and> length (previewBuffer contents (row (position d))) \<le> 10
           \<and> ((\<forall>k<length (window (split EOL contents) (row (position d))).
                  \<not> stopsAt (drop (row (position d)) (split EOL contents)) k)
                \<longrightarrow> s = dedent (join EOL (take 10 (drop (row (position d)) (split EOL contents)))))"
proof -
  let ?b = "previewBuffer contents (row (position d))"
  let ?s = "dedent (join EOL ?b)"
  have r: "getDefinitionPreview fs d = Inr ?s"
    using assms(1) by (rule getDefinitionPreview_read)
  have len: "length ?b \<le> 10"
    using previewBuffer_bounds(2) [OF assms(2)] by (simp add: MAX_PREVIEW_LINES_def)
  have "lineCount ?s = length ?b"
    using previewBuffer_bounds(1,3) [OF assms(2)] by (simp add: lineCount_dedent lineCount_join)
  then have lc: "lineCount ?s \<le> 10" using len by simp
  have cap: "(\<forall>k<length (window (split EOL contents) (row (position d))).
                  \<not> stopsAt (drop (row (position d)) (split EOL contents)) k)
             \<longrightarrow> ?s = dedent (join EOL (take 10 (drop (row (position d)) (split EOL contents))))"
    using previewBuffer_cap [OF assms(2)] by (simp add: window_def MAX_PREVIEW_LINES_def)
  show ?thesis using r lc len cap by blast
qed

theorem preview_at_most_ten_lines_witness:
  "length (split EOL openFile) = 12 \<and>
   (\<exists>s. getDefinitionPreview [''f.js'' \<mapsto> openFile] (definitionAt ''f.js'' 1) = Inr s
        \<and> lineCount s = 10
        \<and> s = dedent (join EOL
                  [''f('', ''f('', ''f('', ''f('', ''f('', ''f('', ''f('', ''f('', ''f('', ''f('']))"
proof -
  let ?d = "definitionAt ''f.js'' 1"
  have h1: "[''f.js'' \<mapsto> openFile] (path ?d) = Some openFile"
    by (simp add: definitionAt_def)
  have h2: "row (position ?d) < length (split EOL openFile)"
    by (simp add: definitionAt_def openFile_lines)
  have w: "window (split EOL openFile) (row (position ?d))
             = [''f('', ''f('', ''f('', ''f('', ''f('', ''f('', ''f('', ''f('', ''f('', ''f('']"
    by (simp add: definitionAt_def openFile_lines window_def MAX_PREVIEW_LINES_def)
  have ten: "\<forall>k<10. \<not> stopsAt (drop (row (position ?d)) (split EOL openFile)) k"
    by (simp add: definitionAt_def openFile_lines stopsAt_def parens_def count_simps
        numeral_eq_Suc All_less_Suc)
  have never: "\<forall>k<length (window (split EOL openFile) (row (position ?d))).
                 \<not> stopsAt (drop (row (position ?d)) (split EOL openFile)) k"
    unfolding w using ten by simp
  from preview_at_most_ten_lines [of "[''f.js'' \<mapsto> openFile]" ?d openFile, OF h1 h2] never
  obtain s where
    s: "getDefinitionPreview [''f.js'' \<mapsto> openFile] ?d = Inr s" "lineCount s \<le> 10"
       "s = dedent (join EOL (take 10 (drop (row (position ?d)) (split EOL openFile))))"
    by blast
  have t: "take 10 (drop (row (position ?d)) (split EOL openFile))
          = [''f('', ''f('', ''f('', ''f('', ''f('', ''f('', ''f('', ''f('', ''f('', ''f('']"
    by (simp add: definitionAt_def openFile_lines)
  have "lineCount (join EOL
          [''f('', ''f('', ''f('', ''f('', ''f('', ''f('', ''f('', ''f('', ''f('', ''f(''])
          = length [''f('', ''f('', ''f('', ''f('', ''f('', ''f('', ''f('', ''f('', ''f('', ''f('']"
    by (rule lineCount_join) (simp_all add: EOL_def)
  then have "lineCount s = 10"
    unfolding s(3) t by (simp add: lineCount_dedent)
  with s t show ?thesis by (simp add: openFile_lines)
qed

section \<open>The position resolver\<close>

text \<open>
  C3, as amended. When every known fragment that the spread's name matches has a name node
  with a location, \<^verbatim>\<open>getDefinitionQueryResultForFragmentSpread\<close> returns as many
  definitions as there are matches, and a query range of as many entries, each the range
  of the spread in the referencing text. With one match there is one definition and one
  entry.
\<close>

theorem spread_matches_ranges:
  assumes "\<forall>fi \<in> set (matching fragment dependencies).
             name_loc (fragment_name (definitionNode fi)) \<noteq> None"
  shows "\<exists>r. snd (getDefinitionQueryResultForFragmentSpread text fragment dependencies) = Inr r
           \<and> length (definitions r) = length (matching fragment dependencies)
           \<and> queryRange r = replicate (length (matching fragment dependencies))
                               (locToRange text (spread_loc fragment))"
proof -
  let ?f = "\<lambda>fi. getDefinitionForFragmentDefinition (orEmpty (filePath fi))
                     (content fi) (FragmentDefinition (definitionNode fi))"
  from spread_wellformed [OF assms] obtain ds
    where ds: "mapResult ?f (matching fragment dependencies) = Inr ds" by blast
  have len: "length ds = length (matching fragment dependencies)"
    using mapResult_Inr [OF ds] by simp
  have "snd (getDefinitionQueryResultForFragmentSpread text fragment dependencies) =
          Inr \<lparr>queryRange = map (\<lambda>_. locToRange text (spread_loc fragment)) ds,
               definitions = ds\<rparr>"
    by (simp add: spread_result ds)
  moreover have "map (\<lambda>_. locToRange text (spread_loc fragment)) ds
      = replicate (length (matching fragment dependencies)) (locToRange text (spread_loc fragment))"
    by (simp add: map_replicate_const len)
  ultimately show ?thesis using len by simp
qed

theorem spread_matches_ranges_witness:
  "length (matching spreadF
      [knownF None (Some nameOfF), knownG, knownF (Some ''b.graphql'') (Some nameOfF)]) = 2 \<and>
   (\<exists>r. snd (getDefinitionQueryResultForFragmentSpread ''{ ...F }'' spreadF
               [knownF None (Some nameOfF), knownG, knownF (Some ''b.graphql'') (Some nameOfF)])
            = Inr r
        \<and> length (definitions r) = 2
        \<and> queryRange r = [locToRange ''{ ...F }'' (spread_loc spreadF),
                            locToRange ''{ ...F }'' (spread_loc spreadF)])"
proof -
  let ?deps = "[knownF None (Some nameOfF), knownG, knownF (Some ''b.graphql'') (Some nameOfF)]"
  have m: "matching spreadF ?deps
             = [knownF None (Some nameOfF), knownF (Some ''b.graphql'') (Some nameOfF)]"
    by (simp add: matching_def spreadF_def knownF_def knownG_def fragmentF_def)
  have h: "\<forall>fi \<in> set (matching spreadF ?deps).
             name_loc (fragment_name (definitionNode fi)) \<noteq> None"
    unfolding m by (simp add: knownF_def fragmentF_def)
  from spread_matches_ranges [OF h, of "''{ ...F }''"] show ?thesis
    unfolding m by (simp add: numeral_2_eq_2)
qed

text \<open>
  The claim as first stated fails: one known fragment matches the spread, its name node has
  no location, and the call throws instead of returning a definition.
\<close>

theorem spread_matches_ranges_counterexample:
  "length (matching spreadF [knownF (Some ''a.graphql'') None]) = 1 \<and>
   snd (getDefinitionQueryResultForFragmentSpread ''{ ...F }'' spreadF
          [knownF (Some ''a.graphql'') None])
     = Inl (InvariantViolation ''Location for Name node expected.'')"
  by (simp add: matching_def spreadF_def knownF_def fragmentF_def
      getDefinitionQueryResultForFragmentSpread_def strictEqualsNewArray_def Let_def
      getDefinitionForFragmentDefinition_def)

text \<open>
  C4. When no known fragment has the spread's name,
  \<^verbatim>\<open>getDefinitionQueryResultForFragmentSpread\<close> returns the result with no definition and
  no query range, and does not throw.
\<close>

theorem spread_no_match_empty:
  assumes "matching fragment dependencies = []"
  shows "snd (getDefinitionQueryResultForFragmentSpread text fragment dependencies)
           = Inr \<lparr>queryRange = [], definitions = []\<rparr>"
  using assms by (simp add: spread_result)

theorem spread_no_match_empty_witness:
  "matching spreadF [knownG] = [] \<and>
   snd (getDefinitionQueryResultForFragmentSpread ''{ ...F }'' spreadF [knownG])
     = Inr \<lparr>queryRange = [], definitions = []\<rparr>"
proof -
  have h: "matching spreadF [knownG] = []"
    by (simp add: matching_def spreadF_def knownG_def)
  from spread_no_match_empty [OF h, of "''{ ...F }''"] h show ?thesis
    by simp
qed

text \<open>
  C5. The claim has the call write a diagnostic to the error stream when no known fragment
  has the spread's name. On the code the call writes nothing: the result is empty, and so
  is the output on the error stream.
\<close>

theorem spread_no_match_silent:
  "matching spreadF [knownG] = [] \<and>
   getDefinitionQueryResultForFragmentSpread ''{ ...F }'' spreadF [knownG]
     = ([], Inr \<lparr>queryRange = [], definitions = []\<rparr>)"
  by (simp add: matching_def spreadF_def knownG_def getDefinitionQueryResultForFragmentSpread_def
      strictEqualsNewArray_def Let_def)

text \<open>
  C6. For a definition whose name node is present and has a location,
  \<^verbatim>\<open>getDefinitionQueryResultForDefinitionNode\<close> returns one definition, the one
  \<^verbatim>\<open>getDefinitionForFragmentDefinition\<close> builds, and one query range, the range of the
  name's location in the text.
\<close>

theorem definition_node_name_range:
  assumes "definitionName definition = Some nameNode"
    and "name_loc nameNode = Some nameLoc"
  shows "\<exists>d. getDefinitionForFragmentDefinition uri text definition = Inr d
           \<and> getDefinitionQueryResultForDefinitionNode uri text definition
               = Inr \<lparr>queryRange = [locToRange text nameLoc], definitions = [d]\<rparr>"
  using assms builder_Inr [OF assms, of uri "text"]
  by (simp add: getDefinitionQueryResultForDefinitionNode_def)

theorem definition_node_name_range_witness:
  "definitionName queryB = Some \<lparr>name_value = ''B'', name_loc = Some \<lparr>loc_start = 20, loc_end = 21\<rparr>\<rparr> \<and>
   (\<exists>d. getDefinitionQueryResultForDefinitionNode ''q.graphql'' twoQueries queryB
           = Inr \<lparr>queryRange = [\<lparr>range_start = \<lparr>row = 1, column = 6\<rparr>,
                                   range_end = \<lparr>row = 1, column = 7\<rparr>\<rparr>],
                  definitions = [d]\<rparr>)"
proof -
  let ?n = "\<lparr>name_value = ''B'', name_loc = Some \<lparr>loc_start = 20, loc_end = 21\<rparr>\<rparr>"
  have h1: "definitionName queryB = Some ?n"
    by (simp add: queryB_def)
  have h2: "name_loc ?n = Some \<lparr>loc_start = 20, loc_end = 21\<rparr>"
    by simp
  have r: "locToRange twoQueries \<lparr>loc_start = 20, loc_end = 21\<rparr>
             = \<lparr>range_start = \<lparr>row = 1, column = 6\<rparr>, range_end = \<lparr>row = 1, column = 7\<rparr>\<rparr>"
    by (simp add: locToRange_def offsetToPoint_def lineStart_def twoQueries_def EOL_def
        count_simps Let_def)
  from definition_node_name_range [OF h1 h2, of "''q.graphql''" twoQueries] h1 show ?thesis
    unfolding r by blast
qed

text \<open>
  C7. For a definition whose name node is present and has a location, the definition that
  \<^verbatim>\<open>getDefinitionForFragmentDefinition\<close> builds has for row the number of newline
  characters of the text before the start offset of the name, and for column the offset
  counted from the character after the last of these newlines, or from the start of the
  text when there is none.
\<close>

theorem buildDefinition_position:
  assumes "definitionName definition = Some nameNode"
    and "name_loc nameNode = Some nameLoc"
  shows "\<exists>d. getDefinitionForFragmentDefinition uri text definition = Inr d
           \<and> row (position d) = length (newlinesBefore text (loc_start nameLoc))
           \<and> column (position d) =
               (if newlinesBefore text (loc_start nameLoc) = [] then loc_start nameLoc
                else loc_start nameLoc - Suc (last (newlinesBefore text (loc_start nameLoc))))"
  using builder_Inr [OF assms, of uri "text"]
  by (simp add: offsetToPoint_newlines)

theorem buildDefinition_position_witness:
  "newlinesBefore twoQueries 20 = [13] \<and>
   (\<exists>d. getDefinitionForFragmentDefinition ''q.graphql'' twoQueries queryB = Inr d
        \<and> row (position d) = 1 \<and> column (position d) = 6) \<and>
   newlinesBefore ''fragment F on T { x }'' 9 = [] \<and>
   (\<exists>d. getDefinitionForFragmentDefinition ''f.graphql'' ''fragment F on T { x }''
          (FragmentDefinition (fragmentF (Some nameOfF))) = Inr d
        \<and> row (position d) = 0 \<and> column (position d) = 9)"
proof -
  let ?l = "\<lparr>loc_start = 20, loc_end = 21\<rparr>"
  let ?n = "\<lparr>name_value = ''B'', name_loc = Some ?l\<rparr>"
  have h1: "definitionName queryB = Some ?n"
    by (simp add: queryB_def)
  have h2: "name_loc ?n = Some ?l"
    by simp
  have n: "newlinesBefore twoQueries 20 = [13]"
    by code_simp
  let ?m = "\<lparr>name_value = ''F'', name_loc = Some nameOfF\<rparr>"
  have g1: "definitionName (FragmentDefinition (fragmentF (Some nameOfF))) = Some ?m"
    by (simp add: fragmentF_def)
  have g2: "name_loc ?m = Some nameOfF"
    by simp
  have s: "loc_start nameOfF = 9"
    by (simp add: nameOfF_def)
  have e: "newlinesBefore ''fragment F on T { x }'' 9 = []"
    by code_simp
  from buildDefinition_position [OF h1 h2, of "''q.graphql''" twoQueries] n
  have 1: "\<exists>d. getDefinitionForFragmentDefinition ''q.graphql'' twoQueries queryB = Inr d
        \<and> row (position d) = 1 \<and> column (position d) = 6"
    by simp
  from buildDefinition_position [OF g1 g2, of "''f.graphql''" "''fragment F on T { x }''"] e
  have 2: "\<exists>d. getDefinitionForFragmentDefinition ''f.graphql'' ''fragment F on T { x }''
          (FragmentDefinition (fragmentF (Some nameOfF))) = Inr d
        \<and> row (position d) = 0 \<and> column (position d) = 9"
    unfolding s by simp
  from n 1 e 2 show ?thesis by blast
qed

text \<open>
  C8. A definition without a name node makes \<^verbatim>\<open>getDefinitionForFragmentDefinition\<close> and
  \<^verbatim>\<open>getDefinitionQueryResultForDefinitionNode\<close> throw the invariant violation
  \<^verbatim>\<open>Name node expected.\<close>; a name node without a location makes both throw
  \<^verbatim>\<open>Location for Name node expected.\<close>; neither then returns a definition. With a name
  node that has a location, both return a value.
\<close>

theorem builder_fails_fast:
  "(definitionName definition = None \<longrightarrow>
      getDefinitionForFragmentDefinition uri text definition
        = Inl (InvariantViolation ''Name node expected.'') \<and>
      getDefinitionQueryResultForDefinitionNode uri text definition
        = Inl (InvariantViolation ''Name node expected.''))
   \<and> (\<forall>nameNode. definitionName definition = Some nameNode \<and> name_loc nameNode = None \<longrightarrow>
      getDefinitionForFragmentDefinition uri text definition
        = Inl (InvariantViolation ''Location for Name node expected.'') \<and>
      getDefinitionQueryResultForDefinitionNode uri text definition
        = Inl (InvariantViolation ''Location for Name node expected.''))
   \<and> (\<forall>nameNode nameLoc.
        definitionName definition = Some nameNode \<and> name_loc nameNode = Some nameLoc \<longrightarrow>
      (\<exists>d. getDefinitionForFragmentDefinition uri text definition = Inr d) \<and>
      (\<exists>r. getDefinitionQueryResultForDefinitionNode uri text definition = Inr r))"
  by (simp add: getDefinitionForFragmentDefinition_def
      getDefinitionQueryResultForDefinitionNode_def)

theorem builder_fails_fast_witness:
  "getDefinitionQueryResultForDefinitionNode ''q.graphql'' ''{ x }'' anonymousQuery
     = Inl (InvariantViolation ''Name node expected.'') \<and>
   getDefinitionForFragmentDefinition ''f.graphql'' ''fragment F on T { x }''
       (FragmentDefinition (fragmentF None))
     = Inl (InvariantViolation ''Location for Name node expected.'') \<and>
   (\<exists>d. getDefinitionForFragmentDefinition ''f.graphql'' ''fragment F on T { x }''
       (FragmentDefinition (fragmentF (Some nameOfF))) = Inr d)"
proof -
  have a: "definitionName anonymousQuery = None"
    by (simp add: anonymousQuery_def)
  have b: "definitionName (FragmentDefinition (fragmentF None))
             = Some \<lparr>name_value = ''F'', name_loc = None\<rparr>"
    by (simp add: fragmentF_def)
  have c: "definitionName (FragmentDefinition (fragmentF (Some nameOfF)))
             = Some \<lparr>name_value = ''F'', name_loc = Some nameOfF\<rparr>"
    by (simp add: fragmentF_def)
  from builder_fails_fast [of anonymousQuery "''q.graphql''" "''{ x }''"] a
  have 1: "getDefinitionQueryResultForDefinitionNode ''q.graphql'' ''{ x }'' anonymousQuery
     = Inl (InvariantViolation ''Name node expected.'')"
    by blast
  from builder_fails_fast [of "FragmentDefinition (fragmentF None)" "''f.graphql''"
      "''fragment F on T { x }''"] b
  have 2: "getDefinitionForFragmentDefinition ''f.graphql'' ''fragment F on T { x }''
       (FragmentDefinition (fragmentF None))
     = Inl (InvariantViolation ''Location for Name node expected.'')"
    by simp
  from builder_fails_fast [of "FragmentDefinition (fragmentF (Some nameOfF))" "''f.graphql''"
      "''fragment F on T { x }''"] c
  have 3: "\<exists>d. getDefinitionForFragmentDefinition ''f.graphql'' ''fragment F on T { x }''
       (FragmentDefinition (fragmentF (Some nameOfF))) = Inr d"
    by simp
  from 1 2 3 show ?thesis by blast
qed

text \<open>
  C10. A matched known fragment without a file path gives, in every result the call
  returns, a definition whose path and project root are the empty string; and the call
  returns a result whenever the matched fragments have name nodes with locations, a
  missing file path being no cause of failure.
\<close>

theorem absent_filePath_empty_path:
  assumes "i < length (matching fragment dependencies)"
    and "filePath (matching fragment dependencies ! i) = None"
  shows "(\<forall>r. snd (getDefinitionQueryResultForFragmentSpread text fragment dependencies) = Inr r
            \<longrightarrow> i < length (definitions r) \<and> path (definitions r ! i) = []
                \<and> projectRoot (definitions r ! i) = [])
       \<and> ((\<forall>fi \<in> set (matching fragment dependencies).
              name_loc (fragment_name (definitionNode fi)) \<noteq> None)
            \<longrightarrow> (\<exists>r. snd (getDefinitionQueryResultForFragmentSpread text fragment dependencies)
                        = Inr r))"
proof (intro conjI allI impI)
  let ?f = "\<lambda>fi. getDefinitionForFragmentDefinition (orEmpty (filePath fi))
                     (content fi) (FragmentDefinition (definitionNode fi))"
  let ?m = "matching fragment dependencies"
  fix r
  assume "snd (getDefinitionQueryResultForFragmentSpread text fragment dependencies) = Inr r"
  then obtain ds where ds: "mapResult ?f ?m = Inr ds" and r: "definitions r = ds"
    by (auto simp: spread_result split: sum.splits)
  from mapResult_Inr [OF ds] assms(1) have len: "length ds = length ?m"
    and at: "?f (?m ! i) = Inr (ds ! i)"
    by simp_all
  from at assms(2) have "path (ds ! i) = [] \<and> projectRoot (ds ! i) = []"
    using builder_path [of "orEmpty (filePath (?m ! i))" _ _ "ds ! i"]
    by (simp add: orEmpty_def)
  then show "i < length (definitions r)" "path (definitions r ! i) = []"
    "projectRoot (definitions r ! i) = []"
    using len assms(1) r by simp_all
next
  assume "\<forall>fi \<in> set (matching fragment dependencies).
            name_loc (fragment_name (definitionNode fi)) \<noteq> None"
  from spread_wellformed [OF this]
  show "\<exists>r. snd (getDefinitionQueryResultForFragmentSpread text fragment dependencies) = Inr r"
    by (auto simp: spread_result)
qed

theorem absent_filePath_empty_path_witness:
  "filePath (matching spreadF [knownG, knownF None (Some nameOfF)] ! 0) = None \<and>
   (\<exists>r. snd (getDefinitionQueryResultForFragmentSpread ''{ ...F }'' spreadF
               [knownG, knownF None (Some nameOfF)]) = Inr r
        \<and> path (definitions r ! 0) = [] \<and> projectRoot (definitions r ! 0) = [])"
proof -
  let ?deps = "[knownG, knownF None (Some nameOfF)]"
  have m: "matching spreadF ?deps = [knownF None (Some nameOfF)]"
    by (simp add: matching_def spreadF_def knownF_def knownG_def fragmentF_def)
  have h1: "0 < length (matching spreadF ?deps)"
    unfolding m by simp
  have h2: "filePath (matching spreadF ?deps ! 0) = None"
    unfolding m by (simp add: knownF_def)
  have wf: "\<forall>fi \<in> set (matching spreadF ?deps).
              name_loc (fragment_name (definitionNode fi)) \<noteq> None"
    unfolding m by (simp add: knownF_def fragmentF_def)
  from absent_filePath_empty_path [OF h1 h2, of "''{ ...F }''"] wf h2 show ?thesis
    by blast
qed

end
